theory Spec2Isabelle
  imports Main "HOL-Library.Word" "HOL-Library.Signed_Division"
begin

section \<open>Strings and character classes\<close>

text \<open>
  A JavaScript string is a sequence of UTF-16 code units, and a regular expression without
  the \<^verbatim>\<open>u\<close> flag (as both literals in \<^verbatim>\<open>popup.ts\<close> are) works on code units.
\<close>

type_synonym jschar = "16 word"
type_synonym jsstring = "jschar list"

text \<open>An ASCII literal as code units.\<close>

definition ascii :: "string \<Rightarrow> jsstring" where
  "ascii s = map (\<lambda>c. of_nat (of_char c)) s"

text \<open>
  LineTerminator: LF, CR, LS, PS. Without the \<^verbatim>\<open>s\<close> flag \<^verbatim>\<open>.\<close> matches every code
  unit but these.
\<close>

definition isLineTerminator :: "jschar \<Rightarrow> bool" where
  "isLineTerminator c \<longleftrightarrow> c = 0x000A \<or> c = 0x000D \<or> c = 0x2028 \<or> c = 0x2029"

text \<open>
  \<^verbatim>\<open>\s\<close>: WhiteSpace (TAB, VT, FF, ZWNBSP, and the Unicode space separators) or
  LineTerminator.
\<close>

definition isWhiteSpace :: "jschar \<Rightarrow> bool" where
  "isWhiteSpace c \<longleftrightarrow>
     c = 0x0009 \<or> c = 0x000B \<or> c = 0x000C \<or> c = 0x0020 \<or> c = 0x00A0 \<or> c = 0x1680 \<or>
     (0x2000 \<le> c \<and> c \<le> 0x200A) \<or> c = 0x202F \<or> c = 0x205F \<or> c = 0x3000 \<or> c = 0xFEFF \<or>
     isLineTerminator c"

datatype cclass =
    Dot           \<comment> \<open>\<^verbatim>\<open>.\<close>\<close>
  | Space         \<comment> \<open>\<^verbatim>\<open>\s\<close>\<close>
  | Lit jschar    \<comment> \<open>a literal (possibly escaped) character\<close>

fun cmatch :: "cclass \<Rightarrow> jschar \<Rightarrow> bool" where
  "cmatch Dot c = (\<not> isLineTerminator c)"
| "cmatch Space c = isWhiteSpace c"
| "cmatch (Lit d) c = (c = d)"

section \<open>The regular expression and its backtracking matcher\<close>

datatype greed = Greedy | Lazy

datatype re =
    Bol                       \<comment> \<open>\<^verbatim>\<open>^\<close>\<close>
  | Chr cclass                \<comment> \<open>one character of the class\<close>
  | Rep cclass nat greed      \<comment> \<open>the class repeated at least \<open>n\<close> times: \<^verbatim>\<open>* + *? +?\<close>\<close>
  | Group nat "re list"       \<comment> \<open>capturing group number \<open>i\<close>\<close>
  | Opt "re list"             \<comment> \<open>\<^verbatim>\<open>(?: ... )?\<close>\<close>

text \<open>
  The literal \<^verbatim>\<open>/^(.+?)\s+(?:\[(.*?)\])?\s*\/(.+)\//\<close> of \<^verbatim>\<open>renderWordEntries\<close>
  (line 63) and, twice, of \<^verbatim>\<open>renderNamesEntries\<close> (lines 172 and 184).
\<close>

definition record_re :: "re list" where
  "record_re =
     [Bol,
      Group 1 [Rep Dot 1 Lazy],
      Rep Space 1 Greedy,
      Opt [Chr (Lit 0x5B), Group 2 [Rep Dot 0 Lazy], Chr (Lit 0x5D)],
      Rep Space 0 Greedy,
      Chr (Lit 0x2F),
      Group 3 [Rep Dot 1 Greedy],
      Chr (Lit 0x2F)]"

text \<open>
  The matcher is the backtracking matcher of the language definition with the
  continuation made a list of frames: what is still to be matched, and the capturing
  groups still open (each with the input where it was opened). Alternatives are tried in
  the order of the language definition: a greedy quantifier tries one more repetition
  first, a lazy one tries the rest of the pattern first. \<open>pos\<close> is the index of the
  next code unit, which only \<^verbatim>\<open>^\<close> reads. The body of \<open>Opt\<close> in \<open>record_re\<close> consumes
  at least the two brackets, so the rule that rejects an empty iteration never applies.
\<close>

datatype frame = Run re | Close nat jsstring

type_synonym captures = "nat \<Rightarrow> jsstring option"

fun weight_re :: "re \<Rightarrow> nat" where
  "weight_re Bol = 1"
| "weight_re (Chr c) = 1"
| "weight_re (Rep c n g) = Suc n"
| "weight_re (Group i body) = Suc (Suc (sum_list (map weight_re body)))"
| "weight_re (Opt body) = Suc (sum_list (map weight_re body))"

fun weight_frame :: "frame \<Rightarrow> nat" where
  "weight_frame (Run r) = weight_re r"
| "weight_frame (Close i s0) = 1"

definition weight :: "frame list \<Rightarrow> nat" where
  "weight k = sum_list (map weight_frame k)"

function m :: "frame list \<Rightarrow> jsstring \<Rightarrow> nat \<Rightarrow> captures \<Rightarrow> captures option" where
  "m [] s pos caps = Some caps"
| "m (Close i s0 # k) s pos caps =
     m k s pos (caps(i \<mapsto> take (length s0 - length s) s0))"
| "m (Run Bol # k) s pos caps = (if pos = 0 then m k s pos caps else None)"
| "m (Run (Chr c) # k) [] pos caps = None"
| "m (Run (Chr c) # k) (x # xs) pos caps =
     (if cmatch c x then m k xs (Suc pos) caps else None)"
| "m (Run (Rep c (Suc n) g) # k) [] pos caps = None"
| "m (Run (Rep c (Suc n) g) # k) (x # xs) pos caps =
     (if cmatch c x then m (Run (Rep c n g) # k) xs (Suc pos) caps else None)"
| "m (Run (Rep c 0 Greedy) # k) [] pos caps = m k [] pos caps"
| "m (Run (Rep c 0 Greedy) # k) (x # xs) pos caps =
     (if cmatch c x
      then (case m (Run (Rep c 0 Greedy) # k) xs (Suc pos) caps of
              Some r \<Rightarrow> Some r
            | None \<Rightarrow> m k (x # xs) pos caps)
      else m k (x # xs) pos caps)"
| "m (Run (Rep c 0 Lazy) # k) [] pos caps = m k [] pos caps"
| "m (Run (Rep c 0 Lazy) # k) (x # xs) pos caps =
     (case m k (x # xs) pos caps of
        Some r \<Rightarrow> Some r
      | None \<Rightarrow> if cmatch c x then m (Run (Rep c 0 Lazy) # k) xs (Suc pos) caps else None)"
| "m (Run (Group i body) # k) s pos caps = m (map Run body @ Close i s # k) s pos caps"
| "m (Run (Opt body) # k) s pos caps =
     (case m (map Run body @ k) s pos caps of
        Some r \<Rightarrow> Some r
      | None \<Rightarrow> m k s pos caps)"
  by pat_completeness auto
termination
  by (relation "inv_image (less_than <*lex*> less_than) (\<lambda>(k, s, pos, caps). (weight k, length s))")
     (auto simp: weight_def comp_def)

text \<open>
  \<^verbatim>\<open>RegExp.prototype.exec\<close> for a regular expression without the \<^verbatim>\<open>g\<close> and \<^verbatim>\<open>y\<close>
  flags: the match is tried at index 0, then 1, and so on to the end of the string.
\<close>

fun exec_from :: "re list \<Rightarrow> jsstring \<Rightarrow> nat \<Rightarrow> captures option" where
  "exec_from r [] pos = m (map Run r) [] pos (\<lambda>i. None)"
| "exec_from r (x # xs) pos =
     (case m (map Run r) (x # xs) pos (\<lambda>i. None) of
        Some caps \<Rightarrow> Some caps
      | None \<Rightarrow> exec_from r xs (Suc pos))"

text \<open>
  \<^verbatim>\<open>s.match(r).slice(1)\<close>: the captures of groups 1 to \<open>ngroups\<close> (\<open>None\<close> is
  \<^verbatim>\<open>undefined\<close>, a group that did not take part), or \<open>None\<close> when \<^verbatim>\<open>match\<close> returns
  \<^verbatim>\<open>null\<close>.
\<close>

definition match_slice1 :: "re list \<Rightarrow> nat \<Rightarrow> jsstring \<Rightarrow> jsstring option list option" where
  "match_slice1 r ngroups s = map_option (\<lambda>caps. map caps [1..<Suc ngroups]) (exec_from r s 0)"

section \<open>Parsing one dictionary record\<close>

text \<open>
  \<^verbatim>\<open>const matches = dictEntry.match(...); if (!matches) continue;\<close>
  \<^verbatim>\<open>const [kanjiKana, kana, definition] = matches.slice(1);\<close>
  The result is \<open>None\<close> where the source continues with the next record. Groups 1 and
  3 are not optional, so they are defined in every match (\<open>record_match_None_iff\<close>
  below: the last case is never taken); group 2 is \<^verbatim>\<open>undefined\<close> when the brackets are
  absent.
\<close>

definition record_match :: "jsstring \<Rightarrow> (jsstring \<times> jsstring option \<times> jsstring) option" where
  "record_match dictEntry =
     (case match_slice1 record_re 3 dictEntry of
        None \<Rightarrow> None
      | Some [Some kanjiKana, kana, Some definition] \<Rightarrow> Some (kanjiKana, kana, definition)
      | Some _ \<Rightarrow> None)"

text \<open>
  \<^verbatim>\<open>if (kana) { arr.push(kana); }\<close>: \<^verbatim>\<open>undefined\<close> and the empty string are both
  falsy.
\<close>

fun pushIfTruthy :: "jsstring list \<Rightarrow> jsstring option \<Rightarrow> jsstring list" where
  "pushIfTruthy arr None = arr"
| "pushIfTruthy arr (Some kana) = (if kana = [] then arr else arr @ [kana])"

section \<open>Grouping word entries\<close>

text \<open>
  The \<^verbatim>\<open>DisplayEntry\<close> of \<^verbatim>\<open>renderWordEntries\<close>. Every entry object and its
  \<^verbatim>\<open>kana\<close> array are created by the iteration that pushes them and are referenced
  from the \<^verbatim>\<open>entries\<close> array only, so the in-place \<^verbatim>\<open>prevEntry.kana.push\<close> is an
  update of the last element of the list.
\<close>

record WordDisplayEntry =
  kanjiKana :: jsstring
  kana :: "jsstring list"
  definition_w :: jsstring
  reason :: "jsstring option"

text \<open>The body of the first loop of \<^verbatim>\<open>renderWordEntries\<close> (lines 62 to 92).\<close>

definition wordStep ::
  "WordDisplayEntry list \<Rightarrow> jsstring \<times> jsstring option \<Rightarrow> WordDisplayEntry list" where
  "wordStep entries item =
     (case item of (dictEntry, reason') \<Rightarrow>
        (case record_match dictEntry of
           None \<Rightarrow> entries
         | Some (kanjiKana', kana', definition') \<Rightarrow>
             (let prevEntry = (if entries \<noteq> [] then Some (last entries) else None) in
              (case prevEntry of
                 Some prev \<Rightarrow>
                   if kanjiKana prev = kanjiKana' \<and> definition_w prev = definition'
                   then entries[length entries - 1 :=
                          prev\<lparr>kana := pushIfTruthy (kana prev) kana'\<rparr>]
                   else entries @
                          [\<lparr>kanjiKana = kanjiKana', kana = pushIfTruthy [] kana',
                            definition_w = definition', reason = reason'\<rparr>]
               | None \<Rightarrow>
                   entries @
                     [\<lparr>kanjiKana = kanjiKana', kana = pushIfTruthy [] kana',
                       definition_w = definition', reason = reason'\<rparr>]))))"

definition wordEntries :: "(jsstring \<times> jsstring option) list \<Rightarrow> WordDisplayEntry list" where
  "wordEntries data = foldl wordStep [] data"

section \<open>Grouping name entries\<close>

record Name =
  kanji :: "jsstring option"
  kana_n :: jsstring

record NamesDisplayEntry =
  names :: "Name list"
  definition_n :: jsstring

text \<open>
  Lines 172 to 187 of \<^verbatim>\<open>renderNamesEntries\<close>: the record is matched, and the
  definition field is matched once more with the same regular expression; when that
  succeeds its three groups replace the outer ones. \<open>None\<close> is the \<^verbatim>\<open>continue\<close>.
\<close>

definition namesParse :: "jsstring \<Rightarrow> (jsstring \<times> jsstring option \<times> jsstring) option" where
  "namesParse dictEntry =
     (case record_match dictEntry of
        None \<Rightarrow> None
      | Some (kanjiKana', kana', definition') \<Rightarrow>
          (case record_match definition' of
             Some rematch \<Rightarrow> Some rematch
           | None \<Rightarrow> Some (kanjiKana', kana', definition')))"

text \<open>
  Lines 188 to 190:
  \<^verbatim>\<open>kana ? { kanji: kanjiKana, kana } : { kanji: undefined, kana: kanjiKana }\<close>.
\<close>

fun mkName :: "jsstring \<Rightarrow> jsstring option \<Rightarrow> Name" where
  "mkName kanjiKana' None = \<lparr>kanji = None, kana_n = kanjiKana'\<rparr>"
| "mkName kanjiKana' (Some k) =
     (if k = [] then \<lparr>kanji = None, kana_n = kanjiKana'\<rparr>
      else \<lparr>kanji = Some kanjiKana', kana_n = k\<rparr>)"

text \<open>
  The body of the first loop of \<^verbatim>\<open>renderNamesEntries\<close> (lines 170 to 203); the loop
  reads the first component of each item only.
\<close>

definition namesStep ::
  "NamesDisplayEntry list \<Rightarrow> jsstring \<times> jsstring option \<Rightarrow> NamesDisplayEntry list" where
  "namesStep entries item =
     (case namesParse (fst item) of
        None \<Rightarrow> entries
      | Some (kanjiKana', kana', definition') \<Rightarrow>
          (let name = mkName kanjiKana' kana';
               prevEntry = (if entries \<noteq> [] then Some (last entries) else None) in
           (case prevEntry of
              Some prev \<Rightarrow>
                if definition_n prev = definition'
                then entries[length entries - 1 := prev\<lparr>names := names prev @ [name]\<rparr>]
                else entries @ [\<lparr>names = [name], definition_n = definition'\<rparr>]
            | None \<Rightarrow> entries @ [\<lparr>names = [name], definition_n = definition'\<rparr>])))"

definition namesEntries :: "(jsstring \<times> jsstring option) list \<Rightarrow> NamesDisplayEntry list" where
  "namesEntries data = foldl namesStep [] data"

text \<open>The class list of \<^verbatim>\<open>namesTable\<close> (lines 205 to 211).\<close>

definition namesTableClasses :: "NamesDisplayEntry list \<Rightarrow> string list" where
  "namesTableClasses entries =
     [''name-table''] @ (if length entries > 4 then [''-multicol''] else [])"

section \<open>The selected index\<close>

record PopupOptions =
  showDefinitions :: bool
  copyMode :: "bool option"
  copyIndex :: "int option"

text \<open>
  \<^verbatim>\<open>%\<close> is the remainder of the truncating division: its sign is the sign of the
  dividend, which is \<open>smod\<close> on \<open>int\<close>. \<open>numEntries\<close> is falsy when it is 0.
\<close>

definition getSelectedIndex :: "PopupOptions \<Rightarrow> int \<Rightarrow> int" where
  "getSelectedIndex options numEntries =
     (if copyMode options = Some True
      then (case copyIndex options of
              None \<Rightarrow> - 1
            | Some i \<Rightarrow> if numEntries \<noteq> 0 then i smod numEntries else - 1)
      else - 1)"

text \<open>
  The class list of the \<^verbatim>\<open>entryDiv\<close> of each entry, in both rendering loops (lines 94
  to 104 and 213 to 221): \<^verbatim>\<open>index\<close> counts the entries from 0.
\<close>

definition entryDivClasses :: "PopupOptions \<Rightarrow> nat \<Rightarrow> string list list" where
  "entryDivClasses options numEntries =
     map (\<lambda>index. [''entry''] @
            (if int index = getSelectedIndex options (int numEntries) then [''-selected''] else []))
       [0..<numEntries]"

section \<open>Groups that every match defines\<close>

fun groups_re :: "re \<Rightarrow> nat set" where
  "groups_re (Group i body) = insert i (\<Union> (set (map groups_re body)))"
| "groups_re r = {}"

fun groups_frame :: "frame \<Rightarrow> nat set" where
  "groups_frame (Run r) = groups_re r"
| "groups_frame (Close i s0) = {i}"

section \<open>Records of the dictionary used as examples\<close>

text \<open>
  Code units beyond ASCII are written as numbers. U+4ED4 U+30AF U+30B8 U+30E9 (the whale
  calf with its second part in katakana), U+4ED4 U+9BE8 (in kanji), and the reading
  U+3053 U+304F U+3058 U+3089.
\<close>

definition kokujira :: jsstring where
  "kokujira = [0x3053, 0x304F, 0x3058, 0x3089]"

definition whale_katakana :: jsstring where
  "whale_katakana =
     [0x4ED4, 0x30AF, 0x30B8, 0x30E9] @ ascii '' ['' @ kokujira @ ascii ''] /(n) whale calf/''"

definition whale_kanji :: jsstring where
  "whale_kanji = [0x4ED4, 0x9BE8] @ ascii '' ['' @ kokujira @ ascii ''] /(n) whale calf/''"

text \<open>
  The name record of the comment on line 181: the headword U+3042 U+304B U+7D44 U+FF14,
  its reading in hiragana (ending U+3075 U+3049 U+30FC) and, in the definition field, in
  katakana (ending U+30D5 U+30A9 U+30FC).
\<close>

definition akagumi :: jsstring where
  "akagumi = [0x3042, 0x304B, 0x7D44, 0xFF14]"

definition akagumi_hiragana :: jsstring where
  "akagumi_hiragana = [0x3042, 0x304B, 0x3050, 0x307F, 0x3075, 0x3049, 0x30FC]"

definition akagumi_katakana :: jsstring where
  "akagumi_katakana = [0x3042, 0x304B, 0x3050, 0x307F, 0x30D5, 0x30A9, 0x30FC]"

text \<open>The record with one closing slash, and as the comment has it, with two.\<close>

definition akagumi_one_slash :: jsstring where
  "akagumi_one_slash =
     akagumi @ ascii '' ['' @ akagumi_hiragana @ ascii ''] /'' @
     akagumi @ ascii '' ['' @ akagumi_katakana @ ascii ''] /Akagumi Four (h)/''"

definition akagumi_two_slashes :: jsstring where
  "akagumi_two_slashes = akagumi_one_slash @ ascii ''/''"

section \<open>The records a loop accepts\<close>

text \<open>
  The parsed records of the items on which the loop of \<^verbatim>\<open>renderWordEntries\<close>, or of
  \<^verbatim>\<open>renderNamesEntries\<close>, does not \<^verbatim>\<open>continue\<close> at the failed match, in order. They
  are used to state which record precedes another; the loops do not compute them.
\<close>

definition acceptedWord ::
  "(jsstring \<times> jsstring option) list \<Rightarrow> (jsstring \<times> jsstring option \<times> jsstring) list" where
  "acceptedWord data = List.map_filter (\<lambda>item. record_match (fst item)) data"

definition acceptedNames ::
  "(jsstring \<times> jsstring option) list \<Rightarrow> (jsstring \<times> jsstring option \<times> jsstring) list" where
  "acceptedNames data = List.map_filter (\<lambda>item. namesParse (fst item)) data"

section \<open>Properties of the matcher\<close>

text \<open>Every group outside an optional part is defined by a match.\<close>

lemma m_defines_groups:
  "m k s pos caps = Some r \<Longrightarrow> dom caps \<union> \<Union> (set (map groups_frame k)) \<subseteq> dom r"
proof (induction k s pos caps arbitrary: r rule: m.induct)
  case (2 i s0 k s pos caps)
  from 2(2) have "m k s pos (caps(i \<mapsto> take (length s0 - length s) s0)) = Some r"
    by (simp only: m.simps)
  from 2(1)[OF this]
  have "dom (caps(i \<mapsto> take (length s0 - length s) s0)) \<union> \<Union> (set (map groups_frame k)) \<subseteq> dom r" .
  moreover have "dom (caps(i \<mapsto> take (length s0 - length s) s0)) = insert i (dom caps)"
    by (simp only: dom_fun_upd option.distinct if_False)
  ultimately have "insert i (dom caps) \<union> \<Union> (set (map groups_frame k)) \<subseteq> dom r"
    by (simp only:)
  then show ?case by auto
next
  case (9 c k x xs pos caps)
  then show ?case by (auto split: if_splits option.splits)
next
  case (11 c k x xs pos caps)
  then show ?case by (auto split: if_splits option.splits)
next
  case (12 i body k s pos caps)
  from 12(2) have "m (map Run body @ Close i s # k) s pos caps = Some r"
    by (simp only: m.simps)
  from 12(1)[OF this] show ?case by (auto simp: comp_def)
next
  case (13 body k s pos caps)
  show ?case
  proof (cases "m (map Run body @ k) s pos caps")
    case (Some a)
    with 13(3) have "a = r" by simp
    with 13(1)[OF Some] show ?thesis by auto
  next
    case None
    with 13(3) have "m k s pos caps = Some r" by simp
    from 13(2)[OF None this] show ?thesis by auto
  qed
qed (auto split: if_splits)

text \<open>\<^verbatim>\<open>^\<close> fails at every index but 0, so only the first attempt of \<open>exec_from\<close> counts.\<close>

lemma m_Bol_later: "0 < pos \<Longrightarrow> m (Run Bol # k) s pos caps = None"
  by simp

lemma exec_from_Bol_later: "0 < pos \<Longrightarrow> exec_from (Bol # r) s pos = None"
  by (induction s arbitrary: pos) auto

lemma exec_from_anchored: "exec_from (Bol # r) s 0 = m (map Run r) s 0 (\<lambda>i. None)"
  by (cases s) (auto simp: exec_from_Bol_later split: option.splits)

lemma lazy_Some:
  assumes "\<forall>x\<in>set xs. cmatch c x"
    and "\<And>x t p. x \<in> set xs \<Longrightarrow> m k (x # t) p caps = None"
    and "m k ys (pos + length xs) caps = Some r"
  shows "m (Run (Rep c 0 Lazy) # k) (xs @ ys) pos caps = Some r"
  using assms
proof (induction xs arbitrary: pos)
  case Nil
  then show ?case by (cases ys) simp_all
next
  case (Cons x xs)
  have "m k (x # xs @ ys) pos caps = None" using Cons.prems(2) by simp
  moreover have "m (Run (Rep c 0 Lazy) # k) (xs @ ys) (Suc pos) caps = Some r"
    using Cons by simp
  ultimately show ?case using Cons.prems(1) by simp
qed

lemma greedy_Some:
  assumes "\<forall>x\<in>set xs. cmatch c x"
    and "ys = [] \<or> \<not> cmatch c (hd ys)"
    and "m k ys (pos + length xs) caps = Some r"
  shows "m (Run (Rep c 0 Greedy) # k) (xs @ ys) pos caps = Some r"
  using assms
proof (induction xs arbitrary: pos)
  case Nil
  then show ?case by (cases ys) auto
next
  case (Cons x xs)
  have "m (Run (Rep c 0 Greedy) # k) (xs @ ys) (Suc pos) caps = Some r"
    using Cons by simp
  then show ?case using Cons.prems(1) by simp
qed

lemma gloss_greedy:
  assumes "\<forall>x\<in>set g. \<not> isLineTerminator x"
  shows "m [Run (Rep Dot 0 Greedy), Close 3 s0, Run (Chr (Lit 0x2F))] (g @ [0x2F]) pos caps
         = Some (caps(3 \<mapsto> take (length s0 - 1) s0))"
  using assms
proof (induction g arbitrary: pos)
  case Nil
  then show ?case by (auto simp: isLineTerminator_def fun_eq_iff)
next
  case (Cons x g)
  then show ?case by simp
qed

lemma match_slice1_record_re:
  "match_slice1 record_re 3 s =
     map_option (\<lambda>caps. [caps 1, caps 2, caps 3]) (m (map Run (tl record_re)) s 0 (\<lambda>i. None))"
proof -
  have "[1..<Suc 3] = [1, 2, 3]" by (simp add: upt_rec)
  moreover have "exec_from record_re s 0 = m (map Run (tl record_re)) s 0 (\<lambda>i. None)"
    using exec_from_anchored [of "tl record_re" s] by (simp add: record_re_def)
  ultimately show ?thesis by (simp add: match_slice1_def)
qed

lemma not_space_not_lt: "\<not> isWhiteSpace c \<Longrightarrow> \<not> isLineTerminator c"
  by (simp add: isWhiteSpace_def)

text \<open>
  C4. A record \<open>H [R] /G/\<close> parses to headword \<open>H\<close>, reading \<open>R\<close> and gloss \<open>G\<close>: the
  gloss is the longest run of characters after the slash that ends before a slash, so the
  last slash of the record is excluded and the slashes inside the gloss are kept; for
  \<^verbatim>\<open>H [R] /G1/G2/\<close> the gloss is \<^verbatim>\<open>G1/G2\<close>. The record is well formed when \<open>H\<close> is
  not empty and has no white space, \<open>R\<close> has no closing bracket and no line terminator,
  and \<open>G\<close> is not empty and has no line terminator; the white space after the headword
  (at least one character) and before the slash (any number) may be any characters of
  \<^verbatim>\<open>\s\<close>.
\<close>

theorem record_match_bracketed:
  assumes H: "H \<noteq> []" "\<forall>c\<in>set H. \<not> isWhiteSpace c"
    and W1: "ws1 \<noteq> []" "\<forall>c\<in>set ws1. isWhiteSpace c"
    and R: "\<forall>c\<in>set R. \<not> isLineTerminator c \<and> c \<noteq> 0x5D"
    and W2: "\<forall>c\<in>set ws2. isWhiteSpace c"
    and G: "G \<noteq> []" "\<forall>c\<in>set G. \<not> isLineTerminator c"
  shows "record_match (H @ ws1 @ [0x5B] @ R @ [0x5D] @ ws2 @ [0x2F] @ G @ [0x2F])
         = Some (H, Some R, G)"
proof -
  define tail3 where "tail3 = G @ [0x2F :: jschar]"
  define tail2 where "tail2 = R @ [0x5D] @ ws2 @ [0x2F] @ tail3"
  define tail1 where "tail1 = ws1 @ [0x5B] @ tail2"
  define whole where "whole = H @ tail1"
  define k3 where "k3 = [Run (Group 3 [Rep Dot 1 Greedy]), Run (Chr (Lit 0x2F))]"
  define k2 where "k2 = Run (Rep Space 0 Greedy) # Run (Chr (Lit 0x2F)) # k3"
  define kb where "kb = [Chr (Lit 0x5B), Group 2 [Rep Dot 0 Lazy], Chr (Lit 0x5D)]"
  define k1 where "k1 = Run (Rep Space 1 Greedy) # Run (Opt kb) # k2"
  have sl: "\<not> isWhiteSpace (0x2F :: jschar)" "\<not> isWhiteSpace (0x5B :: jschar)"
    by (simp_all add: isWhiteSpace_def isLineTerminator_def)
  \<comment> \<open>group 3\<close>
  have s3: "m k3 tail3 p caps = Some (caps(3 \<mapsto> G))" for p caps
  proof -
    obtain g gs where g: "G = g # gs" using G(1) by (cases G) auto
    have "m k3 tail3 p caps =
          m [Run (Rep Dot 0 Greedy), Close 3 tail3, Run (Chr (Lit 0x2F))] (gs @ [0x2F]) (Suc p) caps"
      using G(2) by (simp add: k3_def tail3_def g)
    also have "\<dots> = Some (caps(3 \<mapsto> take (length tail3 - 1) tail3))"
      using G(2) by (intro gloss_greedy) (simp add: g)
    finally show ?thesis by (simp add: tail3_def)
  qed
  \<comment> \<open>white space and the slash\<close>
  have s2: "m k2 (ws2 @ [0x2F] @ tail3) p caps = Some (caps(3 \<mapsto> G))" for p caps
    unfolding k2_def
  proof (rule greedy_Some)
    show "\<forall>x\<in>set ws2. cmatch Space x" using W2 by simp
    show "[0x2F] @ tail3 = [] \<or> \<not> cmatch Space (hd ([0x2F] @ tail3))" using sl by simp
    show "m (Run (Chr (Lit 0x2F)) # k3) ([0x2F] @ tail3) (p + length ws2) caps = Some (caps(3 \<mapsto> G))"
      by (simp add: s3)
  qed
  \<comment> \<open>the bracketed reading\<close>
  have sb: "m (map Run kb @ k2) (0x5B # tail2) p caps = Some (caps(2 \<mapsto> R, 3 \<mapsto> G))" for p caps
  proof -
    let ?k = "Close 2 tail2 # Run (Chr (Lit 0x5D)) # k2"
    have "m (Run (Rep Dot 0 Lazy) # ?k) (R @ ([0x5D] @ ws2 @ [0x2F] @ tail3)) (Suc p) caps
          = Some (caps(2 \<mapsto> R, 3 \<mapsto> G))"
    proof (rule lazy_Some)
      show "\<forall>x\<in>set R. cmatch Dot x" using R by simp
      show "m ?k (x # t) q caps = None" if "x \<in> set R" for x t q
        using R that by simp
      show "m ?k ([0x5D] @ ws2 @ [0x2F] @ tail3) (Suc p + length R) caps
            = Some (caps(2 \<mapsto> R, 3 \<mapsto> G))"
        using s2 by (simp add: tail2_def)
    qed
    then show ?thesis by (simp add: kb_def tail2_def)
  qed
  \<comment> \<open>white space after the headword\<close>
  have s1: "m k1 tail1 p caps = Some (caps(2 \<mapsto> R, 3 \<mapsto> G))" for p caps
  proof -
    obtain w ws where w: "ws1 = w # ws" using W1(1) by (cases ws1) auto
    have "m (Run (Rep Space 0 Greedy) # Run (Opt kb) # k2) (ws @ ([0x5B] @ tail2)) (Suc p) caps
          = Some (caps(2 \<mapsto> R, 3 \<mapsto> G))"
    proof (rule greedy_Some)
      show "\<forall>x\<in>set ws. cmatch Space x" using W1(2) by (simp add: w)
      show "[0x5B] @ tail2 = [] \<or> \<not> cmatch Space (hd ([0x5B] @ tail2))" using sl by simp
      show "m (Run (Opt kb) # k2) ([0x5B] @ tail2) (Suc p + length ws) caps
            = Some (caps(2 \<mapsto> R, 3 \<mapsto> G))"
        by (simp add: sb)
    qed
    then show ?thesis using W1(2) by (simp add: k1_def tail1_def w)
  qed
  \<comment> \<open>the headword\<close>
  have s0: "m (map Run (tl record_re)) whole 0 (\<lambda>i. None) = Some ([1 \<mapsto> H, 2 \<mapsto> R, 3 \<mapsto> G])"
  proof -
    obtain h hs where h: "H = h # hs" using H(1) by (cases H) auto
    let ?k = "Close 1 whole # k1"
    have "m (Run (Rep Dot 0 Lazy) # ?k) (hs @ tail1) (Suc 0) (\<lambda>i. None)
          = Some ([1 \<mapsto> H, 2 \<mapsto> R, 3 \<mapsto> G])"
    proof (rule lazy_Some)
      show "\<forall>x\<in>set hs. cmatch Dot x" using H(2) by (simp add: h not_space_not_lt)
      show "m ?k (x # t) q (\<lambda>i. None) = None" if "x \<in> set hs" for x t q
        using H(2) that by (simp add: h k1_def)
      show "m ?k tail1 (Suc 0 + length hs) (\<lambda>i. None) = Some ([1 \<mapsto> H, 2 \<mapsto> R, 3 \<mapsto> G])"
        by (simp add: s1 whole_def)
    qed
    moreover have "map Run (tl record_re) = Run (Group 1 [Rep Dot 1 Lazy]) # k1"
      by (simp add: record_re_def k1_def k2_def k3_def kb_def)
    ultimately show ?thesis using H(2) by (simp add: whole_def h not_space_not_lt)
  qed
  have "whole = H @ ws1 @ [0x5B] @ R @ [0x5D] @ ws2 @ [0x2F] @ G @ [0x2F]"
    by (simp add: whole_def tail1_def tail2_def tail3_def)
  then show ?thesis
    using s0 by (simp add: record_match_def match_slice1_record_re)
qed

lemma record_match_None_iff:
  "record_match s = None \<longleftrightarrow> match_slice1 record_re 3 s = None"
proof (cases "m (map Run (tl record_re)) s 0 (\<lambda>i. None)")
  case None
  then show ?thesis by (simp add: record_match_def match_slice1_record_re)
next
  case (Some r)
  from m_defines_groups [OF Some] have "1 \<in> dom r" "3 \<in> dom r"
    by (auto simp: record_re_def)
  then obtain a b where "r 1 = Some a" "r 3 = Some b" by auto
  with Some show ?thesis by (simp add: record_match_def match_slice1_record_re)
qed

theorem record_match_bracketed_witness:
  "record_match (ascii ''H [R] /G1/G2/'') = Some (ascii ''H'', Some (ascii ''R''), ascii ''G1/G2'')"
  using record_match_bracketed [of "ascii ''H''" "ascii '' ''" "ascii ''R''" "ascii '' ''" "ascii ''G1/G2''"]
  by (simp add: ascii_def isWhiteSpace_def isLineTerminator_def)

section \<open>Properties of the two loops\<close>

lemma update_last: "es \<noteq> [] \<Longrightarrow> es[length es - Suc 0 := e] = butlast es @ [e]"
  by (induction es rule: rev_induct) simp_all

lemma wordStep_None: "record_match d = None \<Longrightarrow> wordStep es (d, r) = es"
  by (simp add: wordStep_def)

lemma wordStep_Some:
  assumes "record_match d = Some (h, k, g)"
  shows "wordStep es (d, r) =
     (if es \<noteq> [] \<and> kanjiKana (last es) = h \<and> definition_w (last es) = g
      then butlast es @ [(last es)\<lparr>kana := pushIfTruthy (kana (last es)) k\<rparr>]
      else es @ [\<lparr>kanjiKana = h, kana = pushIfTruthy [] k, definition_w = g, reason = r\<rparr>])"
  using assms by (simp add: wordStep_def update_last)

lemma namesStep_None: "namesParse (fst item) = None \<Longrightarrow> namesStep es item = es"
  by (simp add: namesStep_def)

lemma namesStep_Some:
  assumes "namesParse (fst item) = Some (h, k, g)"
  shows "namesStep es item =
     (if es \<noteq> [] \<and> definition_n (last es) = g
      then butlast es @ [(last es)\<lparr>names := names (last es) @ [mkName h k]\<rparr>]
      else es @ [\<lparr>names = [mkName h k], definition_n = g\<rparr>])"
  using assms by (simp add: namesStep_def update_last)

lemma wordEntries_snoc: "wordEntries (data @ [item]) = wordStep (wordEntries data) item"
  by (simp add: wordEntries_def)

lemma namesEntries_snoc: "namesEntries (data @ [item]) = namesStep (namesEntries data) item"
  by (simp add: namesEntries_def)

lemma acceptedWord_snoc:
  "acceptedWord (data @ [item]) =
     (case record_match (fst item) of None \<Rightarrow> acceptedWord data | Some t \<Rightarrow> acceptedWord data @ [t])"
  by (simp add: acceptedWord_def map_filter_def split: option.splits)

lemma acceptedNames_snoc:
  "acceptedNames (data @ [item]) =
     (case namesParse (fst item) of None \<Rightarrow> acceptedNames data | Some t \<Rightarrow> acceptedNames data @ [t])"
  by (simp add: acceptedNames_def map_filter_def split: option.splits)

lemma wordEntries_last:
  "(acceptedWord data = [] \<longrightarrow> wordEntries data = []) \<and>
   (acceptedWord data \<noteq> [] \<longrightarrow> wordEntries data \<noteq> [] \<and>
      kanjiKana (last (wordEntries data)) = fst (last (acceptedWord data)) \<and>
      definition_w (last (wordEntries data)) = snd (snd (last (acceptedWord data))))"
proof (induction data rule: rev_induct)
  case Nil
  then show ?case by (simp add: acceptedWord_def wordEntries_def map_filter_def)
next
  case (snoc item data)
  obtain d r where item: "item = (d, r)" by (cases item)
  show ?case
  proof (cases "record_match d")
    case None
    with snoc item show ?thesis
      by (simp add: acceptedWord_snoc wordEntries_snoc wordStep_None)
  next
    case (Some t)
    obtain h k g where t: "t = (h, k, g)" by (cases t)
    from Some t have "record_match d = Some (h, k, g)" by simp
    from wordStep_Some [OF this] snoc item Some t show ?thesis
      by (simp add: acceptedWord_snoc wordEntries_snoc)
  qed
qed

lemma namesEntries_last:
  "(acceptedNames data = [] \<longrightarrow> namesEntries data = []) \<and>
   (acceptedNames data \<noteq> [] \<longrightarrow> namesEntries data \<noteq> [] \<and>
      definition_n (last (namesEntries data)) = snd (snd (last (acceptedNames data))))"
proof (induction data rule: rev_induct)
  case Nil
  then show ?case by (simp add: acceptedNames_def namesEntries_def map_filter_def)
next
  case (snoc item data)
  show ?case
  proof (cases "namesParse (fst item)")
    case None
    with snoc show ?thesis
      by (simp add: acceptedNames_snoc namesEntries_snoc namesStep_None)
  next
    case (Some t)
    obtain h k g where t: "t = (h, k, g)" by (cases t)
    from Some t have "namesParse (fst item) = Some (h, k, g)" by simp
    from namesStep_Some [OF this] snoc Some t show ?thesis
      by (simp add: acceptedNames_snoc namesEntries_snoc)
  qed
qed

lemma foldl_wordStep_frame:
  "take (length es - 1) (foldl wordStep es rest) = butlast es \<and> length es \<le> length (foldl wordStep es rest)"
proof (induction rest arbitrary: es)
  case Nil
  show ?case by (simp add: butlast_conv_take)
next
  case (Cons item rest)
  obtain d r where item: "item = (d, r)" by (cases item)
  define es' where "es' = wordStep es item"
  have step: "take (length es - 1) es' = butlast es \<and> length es \<le> length es'"
  proof (cases "record_match d")
    case None
    then show ?thesis by (simp add: es'_def item wordStep_None butlast_conv_take)
  next
    case (Some t)
    obtain h k g where "t = (h, k, g)" by (cases t)
    with Some have "record_match d = Some (h, k, g)" by simp
    from wordStep_Some [OF this, of es r] show ?thesis
      by (auto simp: es'_def item butlast_conv_take)
  qed
  from Cons.IH [of es']
  have ih: "take (length es' - 1) (foldl wordStep es' rest) = butlast es'"
    "length es' \<le> length (foldl wordStep es' rest)" by simp_all
  have le: "length es - 1 \<le> length es' - 1" using step by linarith
  have "take (length es - 1) (foldl wordStep es' rest) =
        take (length es - 1) (take (length es' - 1) (foldl wordStep es' rest))"
    using le by (simp add: min_def)
  also have "\<dots> = take (length es - 1) (butlast es')" by (simp only: ih)
  also have "\<dots> = take (length es - 1) es'"
    using le by (simp add: butlast_conv_take min_def)
  also have "\<dots> = butlast es" using step by simp
  finally show ?case using step ih(2) by (simp add: es'_def)
qed

lemma foldl_namesStep_frame:
  "take (length es - 1) (foldl namesStep es rest) = butlast es \<and> length es \<le> length (foldl namesStep es rest)"
proof (induction rest arbitrary: es)
  case Nil
  show ?case by (simp add: butlast_conv_take)
next
  case (Cons item rest)
  define es' where "es' = namesStep es item"
  have step: "take (length es - 1) es' = butlast es \<and> length es \<le> length es'"
  proof (cases "namesParse (fst item)")
    case None
    then show ?thesis by (simp add: es'_def namesStep_None butlast_conv_take)
  next
    case (Some t)
    obtain h k g where "t = (h, k, g)" by (cases t)
    with Some have "namesParse (fst item) = Some (h, k, g)" by simp
    from namesStep_Some [OF this, of es] show ?thesis
      by (auto simp: es'_def butlast_conv_take)
  qed
  from Cons.IH [of es']
  have ih: "take (length es' - 1) (foldl namesStep es' rest) = butlast es'"
    "length es' \<le> length (foldl namesStep es' rest)" by simp_all
  have le: "length es - 1 \<le> length es' - 1" using step by linarith
  have "take (length es - 1) (foldl namesStep es' rest) =
        take (length es - 1) (take (length es' - 1) (foldl namesStep es' rest))"
    using le by (simp add: min_def)
  also have "\<dots> = take (length es - 1) (butlast es')" by (simp only: ih)
  also have "\<dots> = take (length es - 1) es'"
    using le by (simp add: butlast_conv_take min_def)
  also have "\<dots> = butlast es" using step by simp
  finally show ?case using step ih(2) by (simp add: es'_def)
qed

section \<open>Merging\<close>

text \<open>
  C1 (as amended). A record that parses is collapsed into the last display entry (the
  number of entries stays the same) in the word pipeline if and only if its headword and
  its gloss are both equal to those of the record accepted immediately before it, and in
  the name pipeline if and only if its gloss, after the re-parse of the definition field,
  is equal to that of the record accepted immediately before it, whatever the headwords
  are. Otherwise it starts one new entry. In particular two adjacent word records with
  equal glosses and different headwords give two word entries.
\<close>

theorem collapse_iff_previous_accepted:
  assumes "record_match d = Some (h, k, g)" and "namesParse d = Some (h', k', g')"
  shows
   "(length (wordEntries (data @ [(d, r)])) = length (wordEntries data) \<longleftrightarrow>
       acceptedWord data \<noteq> [] \<and> fst (last (acceptedWord data)) = h \<and>
       snd (snd (last (acceptedWord data))) = g) \<and>
    (length (wordEntries (data @ [(d, r)])) \<noteq> length (wordEntries data) \<longrightarrow>
       length (wordEntries (data @ [(d, r)])) = Suc (length (wordEntries data))) \<and>
    (length (namesEntries (data @ [(d, r)])) = length (namesEntries data) \<longleftrightarrow>
       acceptedNames data \<noteq> [] \<and> snd (snd (last (acceptedNames data))) = g') \<and>
    (length (namesEntries (data @ [(d, r)])) \<noteq> length (namesEntries data) \<longrightarrow>
       length (namesEntries (data @ [(d, r)])) = Suc (length (namesEntries data))) \<and>
    (record_match d0 = Some (h0, k0, g) \<longrightarrow> h0 \<noteq> h \<longrightarrow>
       length (wordEntries [(d0, r0), (d, r)]) = 2)"
proof -
  have w: "length (wordEntries (data @ [(d, r)])) =
           (if acceptedWord data \<noteq> [] \<and> fst (last (acceptedWord data)) = h \<and>
               snd (snd (last (acceptedWord data))) = g
            then length (wordEntries data) else Suc (length (wordEntries data)))"
    using wordStep_Some [OF assms(1), of "wordEntries data" r] wordEntries_last [of data]
    by (cases "acceptedWord data = []") (simp_all add: wordEntries_snoc)
  have "namesParse (fst (d, r)) = Some (h', k', g')" using assms(2) by simp
  from namesStep_Some [OF this, of "namesEntries data"] namesEntries_last [of data]
  have n: "length (namesEntries (data @ [(d, r)])) =
           (if acceptedNames data \<noteq> [] \<and> snd (snd (last (acceptedNames data))) = g'
            then length (namesEntries data) else Suc (length (namesEntries data)))"
    by (cases "acceptedNames data = []") (simp_all add: namesEntries_snoc)
  have p: "length (wordEntries [(d0, r0), (d, r)]) = 2"
    if "record_match d0 = Some (h0, k0, g)" "h0 \<noteq> h"
    using that assms(1) by (simp add: wordEntries_def wordStep_Some)
  show ?thesis using p by (simp add: w n)
qed

theorem collapse_iff_previous_accepted_witness:
  "length (wordEntries [(whale_katakana, None), (whale_kanji, None)]) = 2 \<and>
   length (wordEntries [(whale_katakana, None), (whale_katakana, None)]) = 1 \<and>
   length (namesEntries [(whale_katakana, None), (whale_katakana, None)]) = 1"
proof -
  have k: "record_match whale_katakana =
           Some ([0x4ED4, 0x30AF, 0x30B8, 0x30E9], Some kokujira, ascii ''(n) whale calf'')"
    by code_simp
  have j: "record_match whale_kanji = Some ([0x4ED4, 0x9BE8], Some kokujira, ascii ''(n) whale calf'')"
    by code_simp
  have kn: "namesParse whale_katakana =
           Some ([0x4ED4, 0x30AF, 0x30B8, 0x30E9], Some kokujira, ascii ''(n) whale calf'')"
    by code_simp
  have jn: "namesParse whale_kanji = Some ([0x4ED4, 0x9BE8], Some kokujira, ascii ''(n) whale calf'')"
    by code_simp
  have a: "acceptedWord [(whale_katakana, None)] =
           [([0x4ED4, 0x30AF, 0x30B8, 0x30E9], Some kokujira, ascii ''(n) whale calf'')]"
    by (simp add: acceptedWord_def map_filter_def k)
  have l: "length (wordEntries [(whale_katakana, None)]) = 1"
    by (simp add: wordEntries_def wordStep_Some [OF k])
  note t = collapse_iff_previous_accepted [OF j jn, of "[(whale_katakana, None)]" None]
  have "\<not> (acceptedWord [(whale_katakana, None)] \<noteq> [] \<and>
           fst (last (acceptedWord [(whale_katakana, None)])) = [0x4ED4, 0x9BE8] \<and>
           snd (snd (last (acceptedWord [(whale_katakana, None)]))) = ascii ''(n) whale calf'')"
    by (simp add: a)
  with t [THEN conjunct1]
  have "length (wordEntries ([(whale_katakana, None)] @ [(whale_kanji, None)])) \<noteq>
        length (wordEntries [(whale_katakana, None)])"
    by blast
  with t [THEN conjunct2, THEN conjunct1]
  have "length (wordEntries ([(whale_katakana, None)] @ [(whale_kanji, None)])) =
        Suc (length (wordEntries [(whale_katakana, None)]))"
    by blast
  then have 1: "length (wordEntries [(whale_katakana, None), (whale_kanji, None)]) = 2"
    by (simp add: l)
  note u = collapse_iff_previous_accepted [OF k kn, of "[(whale_katakana, None)]" None]
  have "acceptedWord [(whale_katakana, None)] \<noteq> [] \<and>
        fst (last (acceptedWord [(whale_katakana, None)])) = [0x4ED4, 0x30AF, 0x30B8, 0x30E9] \<and>
        snd (snd (last (acceptedWord [(whale_katakana, None)]))) = ascii ''(n) whale calf''"
    by (simp add: a)
  with u [THEN conjunct1]
  have "length (wordEntries ([(whale_katakana, None)] @ [(whale_katakana, None)])) =
        length (wordEntries [(whale_katakana, None)])"
    by blast
  then have 2: "length (wordEntries [(whale_katakana, None), (whale_katakana, None)]) = 1"
    by (simp add: l)
  have an: "acceptedNames [(whale_katakana, None)] =
           [([0x4ED4, 0x30AF, 0x30B8, 0x30E9], Some kokujira, ascii ''(n) whale calf'')]"
    by (simp add: acceptedNames_def map_filter_def kn)
  have ln: "length (namesEntries [(whale_katakana, None)]) = 1"
    using namesStep_Some [of "(whale_katakana, None)" _ _ _ "[]"] kn
    by (simp add: namesEntries_def)
  have "acceptedNames [(whale_katakana, None)] \<noteq> [] \<and>
        snd (snd (last (acceptedNames [(whale_katakana, None)]))) = ascii ''(n) whale calf''"
    by (simp add: an)
  with u [THEN conjunct2, THEN conjunct2, THEN conjunct1]
  have "length (namesEntries ([(whale_katakana, None)] @ [(whale_katakana, None)])) =
        length (namesEntries [(whale_katakana, None)])"
    by blast
  then have 3: "length (namesEntries [(whale_katakana, None), (whale_katakana, None)]) = 1"
    by (simp add: ln)
  from 1 2 3 show ?thesis by (intro conjI)
qed

text \<open>
  The two whale records have equal glosses and different headwords, and the name pipeline
  collapses them into one entry.
\<close>

theorem names_collapse_counterexample:
  "record_match whale_katakana =
     Some ([0x4ED4, 0x30AF, 0x30B8, 0x30E9], Some kokujira, ascii ''(n) whale calf'') \<and>
   record_match whale_kanji = Some ([0x4ED4, 0x9BE8], Some kokujira, ascii ''(n) whale calf'') \<and>
   [0x4ED4, 0x30AF, 0x30B8, 0x30E9] \<noteq> [0x4ED4, 0x9BE8 :: jschar] \<and>
   length (namesEntries [(whale_katakana, None), (whale_kanji, None)]) = 1"
  by code_simp

text \<open>
  C5. In the name pipeline a record that parses, after the re-parse of its definition
  field, to headword \<open>h\<close>, reading \<open>k\<close> and gloss \<open>g\<close> appends its variant to the
  last entry when that entry's gloss is \<open>g\<close>, and otherwise starts a new entry whose
  variant list has that one variant. The headword takes no part in the test.
\<close>

theorem names_merge_rule:
  assumes "namesParse d = Some (h, k, g)"
  shows "namesEntries (data @ [(d, r)]) =
     (if namesEntries data \<noteq> [] \<and> definition_n (last (namesEntries data)) = g
      then butlast (namesEntries data) @
             [(last (namesEntries data))\<lparr>names := names (last (namesEntries data)) @ [mkName h k]\<rparr>]
      else namesEntries data @ [\<lparr>names = [mkName h k], definition_n = g\<rparr>])"
proof -
  have "namesParse (fst (d, r)) = Some (h, k, g)" using assms by simp
  from namesStep_Some [OF this, of "namesEntries data"] show ?thesis
    by (simp add: namesEntries_snoc)
qed

theorem names_merge_rule_witness:
  "namesEntries [(ascii ''a [x] /g/'', None), (ascii ''b /g/'', None)] =
     [\<lparr>names = [\<lparr>kanji = Some (ascii ''a''), kana_n = ascii ''x''\<rparr>,
                \<lparr>kanji = None, kana_n = ascii ''b''\<rparr>],
       definition_n = ascii ''g''\<rparr>] \<and>
   namesEntries [(ascii ''a [x] /g/'', None), (ascii ''a [x] /f/'', None)] =
     [\<lparr>names = [\<lparr>kanji = Some (ascii ''a''), kana_n = ascii ''x''\<rparr>], definition_n = ascii ''g''\<rparr>,
      \<lparr>names = [\<lparr>kanji = Some (ascii ''a''), kana_n = ascii ''x''\<rparr>], definition_n = ascii ''f''\<rparr>]"
proof -
  have e: "namesEntries [(ascii ''a [x] /g/'', None)] =
           [\<lparr>names = [\<lparr>kanji = Some (ascii ''a''), kana_n = ascii ''x''\<rparr>], definition_n = ascii ''g''\<rparr>]"
    by code_simp
  have b: "namesParse (ascii ''b /g/'') = Some (ascii ''b'', None, ascii ''g'')"
    by code_simp
  have f: "namesParse (ascii ''a [x] /f/'') = Some (ascii ''a'', Some (ascii ''x''), ascii ''f'')"
    by code_simp
  have n: "ascii ''g'' \<noteq> ascii ''f''" "ascii ''x'' \<noteq> []"
    by (simp_all add: ascii_def)
  from names_merge_rule [OF b, of "[(ascii ''a [x] /g/'', None)]" None]
  have 1: "namesEntries [(ascii ''a [x] /g/'', None), (ascii ''b /g/'', None)] =
     [\<lparr>names = [\<lparr>kanji = Some (ascii ''a''), kana_n = ascii ''x''\<rparr>,
                \<lparr>kanji = None, kana_n = ascii ''b''\<rparr>],
       definition_n = ascii ''g''\<rparr>]"
    by (simp add: e)
  from names_merge_rule [OF f, of "[(ascii ''a [x] /g/'', None)]" None]
  have 2: "namesEntries [(ascii ''a [x] /g/'', None), (ascii ''a [x] /f/'', None)] =
     [\<lparr>names = [\<lparr>kanji = Some (ascii ''a''), kana_n = ascii ''x''\<rparr>], definition_n = ascii ''g''\<rparr>,
      \<lparr>names = [\<lparr>kanji = Some (ascii ''a''), kana_n = ascii ''x''\<rparr>], definition_n = ascii ''f''\<rparr>]"
    by (simp add: e n)
  from 1 2 show ?thesis by (intro conjI)
qed

text \<open>
  C8. Whatever records follow, every entry but the last one of the entries built so far
  stays as it is, in both pipelines. For records A, A, B, A the output has three entries:
  the two leading A merged, B, and A again. Here B is a record that does not merge with A:
  in the word pipeline its headword or its gloss differs from that of A, in the name
  pipeline its gloss differs.
\<close>

theorem adjacency_frame:
  "take (length (wordEntries data) - 1) (wordEntries (data @ rest)) = butlast (wordEntries data) \<and>
   take (length (namesEntries data) - 1) (namesEntries (data @ rest)) = butlast (namesEntries data) \<and>
   (record_match a = Some (h, k, g) \<longrightarrow> record_match b = Some (h', k', g') \<longrightarrow>
    (h \<noteq> h' \<or> g \<noteq> g') \<longrightarrow>
      wordEntries [(a, r1), (a, r2), (b, r3), (a, r4)] =
        [\<lparr>kanjiKana = h, kana = pushIfTruthy (pushIfTruthy [] k) k, definition_w = g, reason = r1\<rparr>,
         \<lparr>kanjiKana = h', kana = pushIfTruthy [] k', definition_w = g', reason = r3\<rparr>,
         \<lparr>kanjiKana = h, kana = pushIfTruthy [] k, definition_w = g, reason = r4\<rparr>]) \<and>
   (namesParse a = Some (hn, kn, gn) \<longrightarrow> namesParse b = Some (hn', kn', gn') \<longrightarrow> gn \<noteq> gn' \<longrightarrow>
      namesEntries [(a, r1), (a, r2), (b, r3), (a, r4)] =
        [\<lparr>names = [mkName hn kn, mkName hn kn], definition_n = gn\<rparr>,
         \<lparr>names = [mkName hn' kn'], definition_n = gn'\<rparr>,
         \<lparr>names = [mkName hn kn], definition_n = gn\<rparr>])"
proof -
  have "take (length (wordEntries data) - 1) (wordEntries (data @ rest)) = butlast (wordEntries data)"
    using foldl_wordStep_frame [of "wordEntries data" rest] by (simp add: wordEntries_def)
  moreover
  have "take (length (namesEntries data) - 1) (namesEntries (data @ rest)) = butlast (namesEntries data)"
    using foldl_namesStep_frame [of "namesEntries data" rest] by (simp add: namesEntries_def)
  moreover
  have "wordEntries [(a, r1), (a, r2), (b, r3), (a, r4)] =
        [\<lparr>kanjiKana = h, kana = pushIfTruthy (pushIfTruthy [] k) k, definition_w = g, reason = r1\<rparr>,
         \<lparr>kanjiKana = h', kana = pushIfTruthy [] k', definition_w = g', reason = r3\<rparr>,
         \<lparr>kanjiKana = h, kana = pushIfTruthy [] k, definition_w = g, reason = r4\<rparr>]"
    if "record_match a = Some (h, k, g)" "record_match b = Some (h', k', g')" "h \<noteq> h' \<or> g \<noteq> g'"
    using that by (auto simp: wordEntries_def wordStep_Some)
  moreover
  have "namesEntries [(a, r1), (a, r2), (b, r3), (a, r4)] =
        [\<lparr>names = [mkName hn kn, mkName hn kn], definition_n = gn\<rparr>,
         \<lparr>names = [mkName hn' kn'], definition_n = gn'\<rparr>,
         \<lparr>names = [mkName hn kn], definition_n = gn\<rparr>]"
    if "namesParse a = Some (hn, kn, gn)" "namesParse b = Some (hn', kn', gn')" "gn \<noteq> gn'"
    using that by (auto simp: namesEntries_def namesStep_Some)
  ultimately show ?thesis by blast
qed

theorem adjacency_frame_witness:
  "length (wordEntries [(ascii ''A [x] /a/'', None), (ascii ''A [y] /a/'', None),
                        (ascii ''B [z] /b/'', None), (ascii ''A [x] /a/'', None)]) = 3 \<and>
   length (namesEntries [(ascii ''A [x] /a/'', None), (ascii ''A [y] /a/'', None),
                         (ascii ''B [z] /b/'', None), (ascii ''A [x] /a/'', None)]) = 3 \<and>
   length (wordEntries [(ascii ''A [x] /a/'', None), (ascii ''A [x] /a/'', None),
                        (ascii ''B [z] /b/'', None), (ascii ''A [x] /a/'', None)]) = 3 \<and>
   length (namesEntries [(ascii ''A [x] /a/'', None), (ascii ''A [x] /a/'', None),
                         (ascii ''B [z] /b/'', None), (ascii ''A [x] /a/'', None)]) = 3 \<and>
   take 1 (wordEntries [(ascii ''A [x] /a/'', None), (ascii ''B [z] /b/'', None),
                        (ascii ''B [y] /b/'', None)])
     = butlast (wordEntries [(ascii ''A [x] /a/'', None), (ascii ''B [z] /b/'', None)])"
proof -
  have a: "record_match (ascii ''A [x] /a/'') = Some (ascii ''A'', Some (ascii ''x''), ascii ''a'')"
    by code_simp
  have b: "record_match (ascii ''B [z] /b/'') = Some (ascii ''B'', Some (ascii ''z''), ascii ''b'')"
    by code_simp
  have an: "namesParse (ascii ''A [x] /a/'') = Some (ascii ''A'', Some (ascii ''x''), ascii ''a'')"
    by code_simp
  have bn: "namesParse (ascii ''B [z] /b/'') = Some (ascii ''B'', Some (ascii ''z''), ascii ''b'')"
    by code_simp
  have n: "ascii ''a'' \<noteq> ascii ''b''"
    by (simp add: ascii_def)
  have l: "length (wordEntries [(ascii ''A [x] /a/'', None), (ascii ''B [z] /b/'', None)]) = 2"
    by code_simp
  have 1: "length (wordEntries [(ascii ''A [x] /a/'', None), (ascii ''A [y] /a/'', None),
                        (ascii ''B [z] /b/'', None), (ascii ''A [x] /a/'', None)]) = 3"
    by code_simp
  have 2: "length (namesEntries [(ascii ''A [x] /a/'', None), (ascii ''A [y] /a/'', None),
                         (ascii ''B [z] /b/'', None), (ascii ''A [x] /a/'', None)]) = 3"
    by code_simp
  note t = adjacency_frame [of "[(ascii ''A [x] /a/'', None), (ascii ''B [z] /b/'', None)]"
      "[(ascii ''B [y] /b/'', None)]" "ascii ''A [x] /a/''" "ascii ''A''" "Some (ascii ''x'')" "ascii ''a''"
      "ascii ''B [z] /b/''" "ascii ''B''" "Some (ascii ''z'')" "ascii ''b''" None None None None
      "ascii ''A''" "Some (ascii ''x'')" "ascii ''a''" "ascii ''B''" "Some (ascii ''z'')" "ascii ''b''"]
  from t [THEN conjunct2, THEN conjunct2, THEN conjunct1] a b n
  have 3: "length (wordEntries [(ascii ''A [x] /a/'', None), (ascii ''A [x] /a/'', None),
                        (ascii ''B [z] /b/'', None), (ascii ''A [x] /a/'', None)]) = 3"
    by simp
  from t [THEN conjunct2, THEN conjunct2, THEN conjunct2] an bn n
  have 4: "length (namesEntries [(ascii ''A [x] /a/'', None), (ascii ''A [x] /a/'', None),
                         (ascii ''B [z] /b/'', None), (ascii ''A [x] /a/'', None)]) = 3"
    by simp
  from t [THEN conjunct1]
  have 5: "take 1 (wordEntries [(ascii ''A [x] /a/'', None), (ascii ''B [z] /b/'', None),
                        (ascii ''B [y] /b/'', None)])
     = butlast (wordEntries [(ascii ''A [x] /a/'', None), (ascii ''B [z] /b/'', None)])"
    by (simp add: l)
  from 1 2 3 4 5 show ?thesis by (intro conjI)
qed

section \<open>Records that do not parse, and empty readings\<close>

text \<open>
  C7. A record that does not match the regular expression is left out by both pipelines:
  the entries of a sequence with such a record are the entries of the sequence without
  it. Both functions are total, so nothing is raised.
\<close>

theorem unparseable_record_skipped:
  assumes "record_match (fst bad) = None"
  shows "wordEntries (xs @ bad # ys) = wordEntries (xs @ ys) \<and>
         namesEntries (xs @ bad # ys) = namesEntries (xs @ ys)"
proof -
  have "wordStep es bad = es" for es
    using assms wordStep_None [of "fst bad" es "snd bad"] by simp
  moreover have "namesStep es bad = es" for es
    using assms by (simp add: namesStep_def namesParse_def)
  ultimately show ?thesis by (simp add: wordEntries_def namesEntries_def)
qed

theorem unparseable_record_skipped_witness:
  "record_match (ascii ''no gloss here'') = None \<and>
   wordEntries [(ascii ''A [x] /a/'', None), (ascii ''no gloss here'', None), (ascii ''B /b/'', None)]
     = wordEntries [(ascii ''A [x] /a/'', None), (ascii ''B /b/'', None)] \<and>
   namesEntries [(ascii ''A [x] /a/'', None), (ascii ''no gloss here'', None), (ascii ''B /b/'', None)]
     = namesEntries [(ascii ''A [x] /a/'', None), (ascii ''B /b/'', None)]"
proof -
  have h: "record_match (ascii ''no gloss here'') = None"
    by code_simp
  then have "record_match (fst (ascii ''no gloss here'', None :: jsstring option)) = None"
    by simp
  from unparseable_record_skipped [OF this, of "[(ascii ''A [x] /a/'', None)]" "[(ascii ''B /b/'', None)]"] h
  show ?thesis by simp
qed

text \<open>
  C10 (as amended). A record with empty brackets is treated as the same record with no
  brackets: both pipelines give the same entries for the two, wherever the record stands.
  In the word pipeline it appends no reading, neither to the entry it merges into nor to
  the new entry it starts. In the name pipeline the variant is built from the three groups
  left by the re-parse of the definition field: whenever the reading among them is empty,
  the variant has no \<open>kanji\<close> and has the headword among them as \<open>kana_n\<close>. When
  the definition field does not match again these are the groups of the record itself, so
  the variant has the record's own headword as \<open>kana_n\<close>; when it matches again, the
  groups of the second match decide, for the record with empty brackets and for the one
  with no brackets alike.
\<close>

theorem empty_reading_as_absent:
  assumes "record_match d1 = Some (h, Some [], g)" and "record_match d2 = Some (h, None, g)"
  shows "wordEntries (xs @ (d1, r) # ys) = wordEntries (xs @ (d2, r) # ys) \<and>
         namesEntries (xs @ (d1, r) # ys) = namesEntries (xs @ (d2, r) # ys) \<and>
         wordEntries (xs @ [(d1, r)]) =
           (if wordEntries xs \<noteq> [] \<and> kanjiKana (last (wordEntries xs)) = h \<and>
               definition_w (last (wordEntries xs)) = g
            then wordEntries xs
            else wordEntries xs @ [\<lparr>kanjiKana = h, kana = [], definition_w = g, reason = r\<rparr>]) \<and>
         (record_match g = None \<longrightarrow>
            namesEntries (xs @ [(d1, r)]) =
              (if namesEntries xs \<noteq> [] \<and> definition_n (last (namesEntries xs)) = g
               then butlast (namesEntries xs) @
                      [(last (namesEntries xs))
                         \<lparr>names := names (last (namesEntries xs)) @ [\<lparr>kanji = None, kana_n = h\<rparr>]\<rparr>]
               else namesEntries xs @ [\<lparr>names = [\<lparr>kanji = None, kana_n = h\<rparr>], definition_n = g\<rparr>])) \<and>
         (namesParse dn = Some (hn, Some [], gn) \<longrightarrow>
            namesEntries (xs @ [(dn, r)]) =
              (if namesEntries xs \<noteq> [] \<and> definition_n (last (namesEntries xs)) = gn
               then butlast (namesEntries xs) @
                      [(last (namesEntries xs))
                         \<lparr>names := names (last (namesEntries xs)) @ [\<lparr>kanji = None, kana_n = hn\<rparr>]\<rparr>]
               else namesEntries xs @ [\<lparr>names = [\<lparr>kanji = None, kana_n = hn\<rparr>], definition_n = gn\<rparr>])) \<and>
         (record_match g = Some (h', k', g') \<longrightarrow>
            namesParse d1 = Some (h', k', g') \<and> namesParse d2 = Some (h', k', g') \<and>
            namesEntries (xs @ [(d1, r)]) =
              (if namesEntries xs \<noteq> [] \<and> definition_n (last (namesEntries xs)) = g'
               then butlast (namesEntries xs) @
                      [(last (namesEntries xs))
                         \<lparr>names := names (last (namesEntries xs)) @ [mkName h' k']\<rparr>]
               else namesEntries xs @ [\<lparr>names = [mkName h' k'], definition_n = g'\<rparr>]))"
proof -
  have w: "wordStep es (d1, r) = wordStep es (d2, r)" for es
    by (simp add: wordStep_Some [OF assms(1)] wordStep_Some [OF assms(2)])
  have n: "namesStep es (d1, r) = namesStep es (d2, r)" for es
    using assms by (simp add: namesStep_def namesParse_def split: option.splits)
  have 1: "wordEntries (xs @ (d1, r) # ys) = wordEntries (xs @ (d2, r) # ys)"
    by (simp add: wordEntries_def w)
  have 2: "namesEntries (xs @ (d1, r) # ys) = namesEntries (xs @ (d2, r) # ys)"
    by (simp add: namesEntries_def n)
  have 3: "wordEntries (xs @ [(d1, r)]) =
           (if wordEntries xs \<noteq> [] \<and> kanjiKana (last (wordEntries xs)) = h \<and>
               definition_w (last (wordEntries xs)) = g
            then wordEntries xs
            else wordEntries xs @ [\<lparr>kanjiKana = h, kana = [], definition_w = g, reason = r\<rparr>])"
    by (simp add: wordEntries_snoc wordStep_Some [OF assms(1)])
  have v: "namesEntries (xs @ [(d, r)]) =
              (if namesEntries xs \<noteq> [] \<and> definition_n (last (namesEntries xs)) = b
               then butlast (namesEntries xs) @
                      [(last (namesEntries xs))
                         \<lparr>names := names (last (namesEntries xs)) @ [mkName a k]\<rparr>]
               else namesEntries xs @ [\<lparr>names = [mkName a k], definition_n = b\<rparr>])"
    if "namesParse d = Some (a, k, b)" for d a k b
  proof -
    have "namesParse (fst (d, r)) = Some (a, k, b)" using that by simp
    from namesStep_Some [OF this, of "namesEntries xs"] show ?thesis
      by (simp add: namesEntries_snoc)
  qed
  have 4: "namesEntries (xs @ [(d1, r)]) =
              (if namesEntries xs \<noteq> [] \<and> definition_n (last (namesEntries xs)) = g
               then butlast (namesEntries xs) @
                      [(last (namesEntries xs))
                         \<lparr>names := names (last (namesEntries xs)) @ [\<lparr>kanji = None, kana_n = h\<rparr>]\<rparr>]
               else namesEntries xs @ [\<lparr>names = [\<lparr>kanji = None, kana_n = h\<rparr>], definition_n = g\<rparr>])"
    if "record_match g = None"
  proof -
    have "namesParse d1 = Some (h, Some [], g)"
      using assms(1) that by (simp add: namesParse_def)
    from v [OF this] show ?thesis by simp
  qed
  have 5: "namesEntries (xs @ [(dn, r)]) =
              (if namesEntries xs \<noteq> [] \<and> definition_n (last (namesEntries xs)) = gn
               then butlast (namesEntries xs) @
                      [(last (namesEntries xs))
                         \<lparr>names := names (last (namesEntries xs)) @ [\<lparr>kanji = None, kana_n = hn\<rparr>]\<rparr>]
               else namesEntries xs @ [\<lparr>names = [\<lparr>kanji = None, kana_n = hn\<rparr>], definition_n = gn\<rparr>])"
    if "namesParse dn = Some (hn, Some [], gn)"
    using v [OF that] by simp
  have 6: "namesParse d1 = Some (h', k', g') \<and> namesParse d2 = Some (h', k', g') \<and>
            namesEntries (xs @ [(d1, r)]) =
              (if namesEntries xs \<noteq> [] \<and> definition_n (last (namesEntries xs)) = g'
               then butlast (namesEntries xs) @
                      [(last (namesEntries xs))
                         \<lparr>names := names (last (namesEntries xs)) @ [mkName h' k']\<rparr>]
               else namesEntries xs @ [\<lparr>names = [mkName h' k'], definition_n = g'\<rparr>])"
    if "record_match g = Some (h', k', g')"
  proof -
    have a: "namesParse d1 = Some (h', k', g')"
      using assms(1) that by (simp add: namesParse_def)
    have b: "namesParse d2 = Some (h', k', g')"
      using assms(2) that by (simp add: namesParse_def)
    from a b v [OF a] show ?thesis by (intro conjI)
  qed
  from 1 2 3 4 5 6 show ?thesis by blast
qed

theorem empty_reading_as_absent_witness:
  "wordEntries [(ascii ''H [x] /G/'', None), (ascii ''H [] /G/'', None)] =
     [\<lparr>kanjiKana = ascii ''H'', kana = [ascii ''x''], definition_w = ascii ''G'', reason = None\<rparr>] \<and>
   wordEntries [(ascii ''K [x] /G/'', None), (ascii ''H [] /G/'', None)] =
     [\<lparr>kanjiKana = ascii ''K'', kana = [ascii ''x''], definition_w = ascii ''G'', reason = None\<rparr>,
      \<lparr>kanjiKana = ascii ''H'', kana = [], definition_w = ascii ''G'', reason = None\<rparr>] \<and>
   wordEntries [(ascii ''K [x] /G/'', None), (ascii ''H [] /G/'', None), (ascii ''H [y] /G/'', None)] =
   wordEntries [(ascii ''K [x] /G/'', None), (ascii ''H /G/'', None), (ascii ''H [y] /G/'', None)] \<and>
   namesEntries [(ascii ''K [x] /G/'', None), (ascii ''H [] /G/'', None), (ascii ''H [y] /G/'', None)] =
   namesEntries [(ascii ''K [x] /G/'', None), (ascii ''H /G/'', None), (ascii ''H [y] /G/'', None)] \<and>
   namesEntries [(ascii ''K [x] /G/'', None), (ascii ''H [] /G/'', None)] =
     [\<lparr>names = [\<lparr>kanji = Some (ascii ''K''), kana_n = ascii ''x''\<rparr>,
                \<lparr>kanji = None, kana_n = ascii ''H''\<rparr>],
       definition_n = ascii ''G''\<rparr>] \<and>
   namesEntries [(ascii ''K [x] /G/'', None), (ascii ''C [q] /A [] /a//'', None)] =
     [\<lparr>names = [\<lparr>kanji = Some (ascii ''K''), kana_n = ascii ''x''\<rparr>], definition_n = ascii ''G''\<rparr>,
      \<lparr>names = [\<lparr>kanji = None, kana_n = ascii ''A''\<rparr>], definition_n = ascii ''a''\<rparr>] \<and>
   namesParse (ascii ''H [] /A [x] /a//'') = Some (ascii ''A'', Some (ascii ''x''), ascii ''a'') \<and>
   namesParse (ascii ''H /A [x] /a//'') = Some (ascii ''A'', Some (ascii ''x''), ascii ''a'')"
proof -
  have h1: "record_match (ascii ''H [] /G/'') = Some (ascii ''H'', Some [], ascii ''G'')"
    by code_simp
  have h2: "record_match (ascii ''H /G/'') = Some (ascii ''H'', None, ascii ''G'')"
    by code_simp
  have h3: "record_match (ascii ''G'') = None"
    by code_simp
  have e1: "record_match (ascii ''H [] /A [x] /a//'') = Some (ascii ''H'', Some [], ascii ''A [x] /a/'')"
    by code_simp
  have e2: "record_match (ascii ''H /A [x] /a//'') = Some (ascii ''H'', None, ascii ''A [x] /a/'')"
    by code_simp
  have e3: "record_match (ascii ''A [x] /a/'') = Some (ascii ''A'', Some (ascii ''x''), ascii ''a'')"
    by code_simp
  have c: "namesParse (ascii ''C [q] /A [] /a//'') = Some (ascii ''A'', Some [], ascii ''a'')"
    by code_simp
  have wh: "wordEntries [(ascii ''H [x] /G/'', None)] =
     [\<lparr>kanjiKana = ascii ''H'', kana = [ascii ''x''], definition_w = ascii ''G'', reason = None\<rparr>]"
    by code_simp
  have wk: "wordEntries [(ascii ''K [x] /G/'', None)] =
     [\<lparr>kanjiKana = ascii ''K'', kana = [ascii ''x''], definition_w = ascii ''G'', reason = None\<rparr>]"
    by code_simp
  have nk: "namesEntries [(ascii ''K [x] /G/'', None)] =
     [\<lparr>names = [\<lparr>kanji = Some (ascii ''K''), kana_n = ascii ''x''\<rparr>], definition_n = ascii ''G''\<rparr>]"
    by code_simp
  have ne: "ascii ''K'' \<noteq> ascii ''H''" "ascii ''G'' \<noteq> ascii ''a''"
    by (simp_all add: ascii_def)
  note t = empty_reading_as_absent [OF h1 h2, of "[(ascii ''H [x] /G/'', None)]" None]
  note u = empty_reading_as_absent [OF h1 h2, of "[(ascii ''K [x] /G/'', None)]" None
             "[(ascii ''H [y] /G/'', None)]" "ascii ''C [q] /A [] /a//''" "ascii ''A''" "ascii ''a''"]
  note s = empty_reading_as_absent [OF e1 e2, of "[]" None "[]" _ _ _
             "ascii ''A''" "Some (ascii ''x'')" "ascii ''a''"]
  have 1: "wordEntries [(ascii ''H [x] /G/'', None), (ascii ''H [] /G/'', None)] =
     [\<lparr>kanjiKana = ascii ''H'', kana = [ascii ''x''], definition_w = ascii ''G'', reason = None\<rparr>]"
    using t [THEN conjunct2, THEN conjunct2, THEN conjunct1] by (simp add: wh)
  have 2: "wordEntries [(ascii ''K [x] /G/'', None), (ascii ''H [] /G/'', None)] =
     [\<lparr>kanjiKana = ascii ''K'', kana = [ascii ''x''], definition_w = ascii ''G'', reason = None\<rparr>,
      \<lparr>kanjiKana = ascii ''H'', kana = [], definition_w = ascii ''G'', reason = None\<rparr>]"
    using u [THEN conjunct2, THEN conjunct2, THEN conjunct1] by (simp add: wk ne)
  have 3: "wordEntries [(ascii ''K [x] /G/'', None), (ascii ''H [] /G/'', None), (ascii ''H [y] /G/'', None)] =
   wordEntries [(ascii ''K [x] /G/'', None), (ascii ''H /G/'', None), (ascii ''H [y] /G/'', None)]"
    using u [THEN conjunct1] by simp
  have 4: "namesEntries [(ascii ''K [x] /G/'', None), (ascii ''H [] /G/'', None), (ascii ''H [y] /G/'', None)] =
   namesEntries [(ascii ''K [x] /G/'', None), (ascii ''H /G/'', None), (ascii ''H [y] /G/'', None)]"
    using u [THEN conjunct2, THEN conjunct1] by simp
  have 5: "namesEntries [(ascii ''K [x] /G/'', None), (ascii ''H [] /G/'', None)] =
     [\<lparr>names = [\<lparr>kanji = Some (ascii ''K''), kana_n = ascii ''x''\<rparr>,
                \<lparr>kanji = None, kana_n = ascii ''H''\<rparr>],
       definition_n = ascii ''G''\<rparr>]"
    using u [THEN conjunct2, THEN conjunct2, THEN conjunct2, THEN conjunct1] h3 by (simp add: nk)
  have 6: "namesEntries [(ascii ''K [x] /G/'', None), (ascii ''C [q] /A [] /a//'', None)] =
     [\<lparr>names = [\<lparr>kanji = Some (ascii ''K''), kana_n = ascii ''x''\<rparr>], definition_n = ascii ''G''\<rparr>,
      \<lparr>names = [\<lparr>kanji = None, kana_n = ascii ''A''\<rparr>], definition_n = ascii ''a''\<rparr>]"
    using u [THEN conjunct2, THEN conjunct2, THEN conjunct2, THEN conjunct2, THEN conjunct1] c
    by (simp add: nk ne)
  have 7: "namesParse (ascii ''H [] /A [x] /a//'') = Some (ascii ''A'', Some (ascii ''x''), ascii ''a'') \<and>
           namesParse (ascii ''H /A [x] /a//'') = Some (ascii ''A'', Some (ascii ''x''), ascii ''a'')"
    using s [THEN conjunct2, THEN conjunct2, THEN conjunct2, THEN conjunct2, THEN conjunct2] e3
    by blast
  from 1 2 3 4 5 6 7 show ?thesis by (intro conjI) simp_all
qed

text \<open>
  The record \<^verbatim>\<open>H [] /A [x] /a//\<close> has empty brackets, and its definition field matches
  again: its variant has the \<open>kanji\<close> and the reading of the second match, not the
  headword \<^verbatim>\<open>H\<close> as \<open>kana_n\<close>.
\<close>

theorem empty_reading_embedded_counterexample:
  "record_match (ascii ''H [] /A [x] /a//'') = Some (ascii ''H'', Some [], ascii ''A [x] /a/'') \<and>
   namesEntries [(ascii ''H [] /A [x] /a//'', None)] =
     [\<lparr>names = [\<lparr>kanji = Some (ascii ''A''), kana_n = ascii ''x''\<rparr>], definition_n = ascii ''a''\<rparr>] \<and>
   namesEntries [(ascii ''H [] /A [x] /a//'', None)] \<noteq>
     [\<lparr>names = [\<lparr>kanji = None, kana_n = ascii ''H''\<rparr>], definition_n = ascii ''a''\<rparr>]"
  by code_simp

section \<open>The re-parse of the definition field\<close>

text \<open>
  C6 (as amended). In the name pipeline, when the definition field of a record matches
  the regular expression itself, the three groups of that second match replace the outer
  ones; they are used as they are, the definition field of the second match is not
  matched again. When it does not match, the outer groups are kept. The record of the
  comment on line 181, which ends in two slashes, gives the embedded headword with the
  katakana reading and the gloss \<^verbatim>\<open>Akagumi Four (h)\<close>. The same record with one slash
  at its end has a definition field with no closing slash, which does not match: it keeps
  the outer headword with the hiragana reading, and the whole definition field as gloss.
\<close>

theorem embedded_record_fallback:
  assumes "record_match d = Some (h, k, g)"
  shows "(record_match g = Some (h', k', g') \<longrightarrow>
            namesParse d = Some (h', k', g') \<and>
            namesEntries [(d, r)] = [\<lparr>names = [mkName h' k'], definition_n = g'\<rparr>]) \<and>
         (record_match g = None \<longrightarrow>
            namesParse d = Some (h, k, g) \<and>
            namesEntries [(d, r)] = [\<lparr>names = [mkName h k], definition_n = g\<rparr>]) \<and>
         namesEntries [(akagumi_two_slashes, r)] =
           [\<lparr>names = [\<lparr>kanji = Some akagumi, kana_n = akagumi_katakana\<rparr>],
             definition_n = ascii ''Akagumi Four (h)''\<rparr>] \<and>
         namesEntries [(akagumi_one_slash, r)] =
           [\<lparr>names = [\<lparr>kanji = Some akagumi, kana_n = akagumi_hiragana\<rparr>],
             definition_n =
               akagumi @ ascii '' ['' @ akagumi_katakana @ ascii ''] /Akagumi Four (h)''\<rparr>]"
proof -
  have 1: "namesParse d = Some (h', k', g') \<and>
           namesEntries [(d, r)] = [\<lparr>names = [mkName h' k'], definition_n = g'\<rparr>]"
    if "record_match g = Some (h', k', g')"
  proof -
    have p: "namesParse d = Some (h', k', g')"
      using assms that by (simp add: namesParse_def)
    then have "namesParse (fst (d, r)) = Some (h', k', g')" by simp
    from namesStep_Some [OF this, of "[]"] p show ?thesis
      by (simp add: namesEntries_def)
  qed
  have 2: "namesParse d = Some (h, k, g) \<and>
           namesEntries [(d, r)] = [\<lparr>names = [mkName h k], definition_n = g\<rparr>]"
    if "record_match g = None"
  proof -
    have p: "namesParse d = Some (h, k, g)"
      using assms that by (simp add: namesParse_def)
    then have "namesParse (fst (d, r)) = Some (h, k, g)" by simp
    from namesStep_Some [OF this, of "[]"] p show ?thesis
      by (simp add: namesEntries_def)
  qed
  have "namesParse akagumi_two_slashes = Some (akagumi, Some akagumi_katakana, ascii ''Akagumi Four (h)'')"
    by code_simp
  then have "namesParse (fst (akagumi_two_slashes, r)) =
             Some (akagumi, Some akagumi_katakana, ascii ''Akagumi Four (h)'')"
    by simp
  from namesStep_Some [OF this, of "[]"]
  have 3: "namesEntries [(akagumi_two_slashes, r)] =
           [\<lparr>names = [\<lparr>kanji = Some akagumi, kana_n = akagumi_katakana\<rparr>],
             definition_n = ascii ''Akagumi Four (h)''\<rparr>]"
    by (simp add: namesEntries_def akagumi_katakana_def)
  have "namesParse akagumi_one_slash =
          Some (akagumi, Some akagumi_hiragana,
                akagumi @ ascii '' ['' @ akagumi_katakana @ ascii ''] /Akagumi Four (h)'')"
    by code_simp
  then have "namesParse (fst (akagumi_one_slash, r)) =
          Some (akagumi, Some akagumi_hiragana,
                akagumi @ ascii '' ['' @ akagumi_katakana @ ascii ''] /Akagumi Four (h)'')"
    by simp
  from namesStep_Some [OF this, of "[]"]
  have 4: "namesEntries [(akagumi_one_slash, r)] =
           [\<lparr>names = [\<lparr>kanji = Some akagumi, kana_n = akagumi_hiragana\<rparr>],
             definition_n =
               akagumi @ ascii '' ['' @ akagumi_katakana @ ascii ''] /Akagumi Four (h)''\<rparr>]"
    by (simp add: namesEntries_def akagumi_hiragana_def)
  from 1 2 3 4 show ?thesis by blast
qed

theorem embedded_record_fallback_witness:
  "namesParse (ascii ''a /b /c /d///'') = Some (ascii ''b'', None, ascii ''c /d/'') \<and>
   record_match (ascii ''c /d/'') = Some (ascii ''c'', None, ascii ''d'') \<and>
   namesEntries [(ascii ''a /b /c /d///'', None)] =
     [\<lparr>names = [\<lparr>kanji = None, kana_n = ascii ''b''\<rparr>], definition_n = ascii ''c /d/''\<rparr>] \<and>
   namesParse (ascii ''a [b] /c/'') = Some (ascii ''a'', Some (ascii ''b''), ascii ''c'')"
proof -
  have o: "record_match (ascii ''a /b /c /d///'') = Some (ascii ''a'', None, ascii ''b /c /d//'')"
    by code_simp
  have i: "record_match (ascii ''b /c /d//'') = Some (ascii ''b'', None, ascii ''c /d/'')"
    by code_simp
  have j: "record_match (ascii ''c /d/'') = Some (ascii ''c'', None, ascii ''d'')"
    by code_simp
  have p: "record_match (ascii ''a [b] /c/'') = Some (ascii ''a'', Some (ascii ''b''), ascii ''c'')"
    by code_simp
  have q: "record_match (ascii ''c'') = None"
    by code_simp
  note t = embedded_record_fallback [OF o, of "ascii ''b''" None "ascii ''c /d/''" None, THEN conjunct1]
  note u = embedded_record_fallback [OF p, of "ascii ''b''" None "ascii ''c /d/''" None,
             THEN conjunct2, THEN conjunct1]
  from t i have 1: "namesParse (ascii ''a /b /c /d///'') = Some (ascii ''b'', None, ascii ''c /d/'')"
    by blast
  from t i have 2: "namesEntries [(ascii ''a /b /c /d///'', None)] =
     [\<lparr>names = [\<lparr>kanji = None, kana_n = ascii ''b''\<rparr>], definition_n = ascii ''c /d/''\<rparr>]"
    by simp
  from u q have 3: "namesParse (ascii ''a [b] /c/'') = Some (ascii ''a'', Some (ascii ''b''), ascii ''c'')"
    by blast
  from 1 j 2 3 show ?thesis by (intro conjI)
qed

text \<open>
  The record with one closing slash: the entry has the outer pair, and its gloss is not
  \<^verbatim>\<open>Akagumi Four (h)/\<close>.
\<close>

theorem akagumi_one_slash_counterexample:
  "namesEntries [(akagumi_one_slash, None)] =
     [\<lparr>names = [\<lparr>kanji = Some akagumi, kana_n = akagumi_hiragana\<rparr>],
       definition_n = akagumi @ ascii '' ['' @ akagumi_katakana @ ascii ''] /Akagumi Four (h)''\<rparr>] \<and>
   record_match (akagumi @ ascii '' ['' @ akagumi_katakana @ ascii ''] /Akagumi Four (h)'') = None \<and>
   akagumi_hiragana \<noteq> akagumi_katakana \<and>
   akagumi @ ascii '' ['' @ akagumi_katakana @ ascii ''] /Akagumi Four (h)'' \<noteq> ascii ''Akagumi Four (h)/''"
  by code_simp

section \<open>Layout and selection\<close>

text \<open>
  C9. The table of names has the class \<^verbatim>\<open>-multicol\<close> if and only if there are more than
  4 grouped entries: it has it with 5 entries or more, and with 4 entries or fewer its
  only class is \<^verbatim>\<open>name-table\<close>.
\<close>

theorem multicol_iff:
  "(''-multicol'' \<in> set (namesTableClasses (namesEntries data)) \<longleftrightarrow>
      4 < length (namesEntries data)) \<and>
   (5 \<le> length (namesEntries data) \<longrightarrow>
      namesTableClasses (namesEntries data) = [''name-table'', ''-multicol'']) \<and>
   (length (namesEntries data) \<le> 4 \<longrightarrow>
      namesTableClasses (namesEntries data) = [''name-table''])"
proof -
  have "namesTableClasses es = [''name-table'', ''-multicol'']" if "5 \<le> length es" for es
    using that by (simp add: namesTableClasses_def)
  moreover have "namesTableClasses es = [''name-table'']" if "length es \<le> 4" for es
    using that by (simp add: namesTableClasses_def)
  moreover have "''-multicol'' \<in> set (namesTableClasses es) \<longleftrightarrow> 4 < length es" for es
    by (simp add: namesTableClasses_def)
  ultimately show ?thesis by blast
qed

theorem multicol_iff_witness:
  "''-multicol'' \<in> set (namesTableClasses (namesEntries
      [(ascii ''a /1/'', None), (ascii ''b /2/'', None), (ascii ''c /3/'', None),
       (ascii ''d /4/'', None), (ascii ''e /5/'', None)])) \<and>
   ''-multicol'' \<notin> set (namesTableClasses (namesEntries
      [(ascii ''a /1/'', None), (ascii ''b /2/'', None), (ascii ''c /3/'', None),
       (ascii ''d /4/'', None), (ascii ''e /4/'', None)]))"
proof -
  have 5: "length (namesEntries
      [(ascii ''a /1/'', None), (ascii ''b /2/'', None), (ascii ''c /3/'', None),
       (ascii ''d /4/'', None), (ascii ''e /5/'', None)]) = 5"
    by code_simp
  have 4: "length (namesEntries
      [(ascii ''a /1/'', None), (ascii ''b /2/'', None), (ascii ''c /3/'', None),
       (ascii ''d /4/'', None), (ascii ''e /4/'', None)]) = 4"
    by code_simp
  note t = multicol_iff [of "[(ascii ''a /1/'', None), (ascii ''b /2/'', None), (ascii ''c /3/'', None),
       (ascii ''d /4/'', None), (ascii ''e /5/'', None)]", THEN conjunct1]
  note u = multicol_iff [of "[(ascii ''a /1/'', None), (ascii ''b /2/'', None), (ascii ''c /3/'', None),
       (ascii ''d /4/'', None), (ascii ''e /4/'', None)]", THEN conjunct1]
  from t have a: "''-multicol'' \<in> set (namesTableClasses (namesEntries
      [(ascii ''a /1/'', None), (ascii ''b /2/'', None), (ascii ''c /3/'', None),
       (ascii ''d /4/'', None), (ascii ''e /5/'', None)]))"
    by (simp add: 5)
  from u have b: "''-multicol'' \<notin> set (namesTableClasses (namesEntries
      [(ascii ''a /1/'', None), (ascii ''b /2/'', None), (ascii ''c /3/'', None),
       (ascii ''d /4/'', None), (ascii ''e /4/'', None)]))"
    by (simp add: 4)
  from a b show ?thesis by (intro conjI)
qed

text \<open>
  C2 (as amended). With copy mode on, a defined \<open>copyIndex\<close> and \<open>n > 0\<close> entries
  the selected index is the remainder of the truncating division of \<open>copyIndex\<close> by
  \<open>n\<close>. For \<open>copyIndex \<ge> 0\<close> it is \<open>copyIndex mod n\<close> and lies in \<open>[0, n)\<close>, so
  \<open>getSelectedIndex\<close> of 5 and 3 is 2; for \<open>copyIndex < 0\<close> it is
  \<open>- ((- copyIndex) mod n)\<close> and lies in \<open>(- n, 0]\<close>.
\<close>

theorem selected_index_remainder:
  assumes "copyMode options = Some True" and "copyIndex options = Some i" and "0 < n"
  shows "getSelectedIndex options n = i smod n \<and>
         (0 \<le> i \<longrightarrow> getSelectedIndex options n = i mod n \<and>
                    0 \<le> getSelectedIndex options n \<and> getSelectedIndex options n < n) \<and>
         (i < 0 \<longrightarrow> getSelectedIndex options n = - ((- i) mod n) \<and>
                    - n < getSelectedIndex options n \<and> getSelectedIndex options n \<le> 0)"
proof -
  have r: "getSelectedIndex options n = i smod n"
    using assms by (simp add: getSelectedIndex_def)
  have "0 \<le> i \<Longrightarrow> i smod n = i mod n"
    using assms(3) by (simp add: signed_modulo_int_def sgn_if)
  moreover have "i < 0 \<Longrightarrow> i smod n = - ((- i) mod n)"
    using assms(3) by (simp add: signed_modulo_int_def sgn_if)
  moreover have "0 \<le> (- i) mod n" "(- i) mod n < n" "0 \<le> i mod n" "i mod n < n"
    using assms(3) by simp_all
  ultimately show ?thesis using r by auto
qed

theorem selected_index_remainder_witness:
  "getSelectedIndex \<lparr>showDefinitions = True, copyMode = Some True, copyIndex = Some 5\<rparr> 3 = 2 \<and>
   getSelectedIndex \<lparr>showDefinitions = True, copyMode = Some True, copyIndex = Some (- 5)\<rparr> 3 = - 2"
  using selected_index_remainder
          [of "\<lparr>showDefinitions = True, copyMode = Some True, copyIndex = Some 5\<rparr>" 5 3]
        selected_index_remainder
          [of "\<lparr>showDefinitions = True, copyMode = Some True, copyIndex = Some (- 5)\<rparr>" "- 5" 3]
  by simp

text \<open>For \<open>copyIndex = - 1\<close> and 3 entries the selected index is \<open>- 1\<close>, outside \<open>[0, 3)\<close>.\<close>

theorem selected_index_negative_counterexample:
  "getSelectedIndex \<lparr>showDefinitions = True, copyMode = Some True, copyIndex = Some (- 1)\<rparr> 3 = - 1"
  by (simp add: getSelectedIndex_def signed_modulo_int_def)

text \<open>
  C3. When copy mode is off (false or absent), or \<open>copyIndex\<close> is undefined, or there
  is no entry, the selected index is \<open>- 1\<close>, and no entry gets the class
  \<^verbatim>\<open>-selected\<close>.
\<close>

theorem selected_index_guard:
  assumes "copyMode options \<noteq> Some True \<or> copyIndex options = None \<or> n = 0"
  shows "getSelectedIndex options (int n) = - 1 \<and>
         (\<forall>classes \<in> set (entryDivClasses options n). ''-selected'' \<notin> set classes)"
proof -
  have "getSelectedIndex options (int n) = - 1"
    using assms by (auto simp: getSelectedIndex_def split: option.splits)
  then show ?thesis by (simp add: entryDivClasses_def)
qed

theorem selected_index_guard_witness:
  "getSelectedIndex \<lparr>showDefinitions = True, copyMode = Some False, copyIndex = Some 1\<rparr> (int 3) = - 1 \<and>
   getSelectedIndex \<lparr>showDefinitions = True, copyMode = Some True, copyIndex = None\<rparr> (int 3) = - 1 \<and>
   getSelectedIndex \<lparr>showDefinitions = True, copyMode = Some True, copyIndex = Some 0\<rparr> (int 0) = - 1 \<and>
   entryDivClasses \<lparr>showDefinitions = True, copyMode = None, copyIndex = Some 1\<rparr> 3
     = [[''entry''], [''entry''], [''entry'']]"
  using selected_index_guard
          [of "\<lparr>showDefinitions = True, copyMode = Some False, copyIndex = Some 1\<rparr>" 3]
        selected_index_guard
          [of "\<lparr>showDefinitions = True, copyMode = Some True, copyIndex = None\<rparr>" 3]
        selected_index_guard
          [of "\<lparr>showDefinitions = True, copyMode = Some True, copyIndex = Some 0\<rparr>" 0]
        selected_index_guard
          [of "\<lparr>showDefinitions = True, copyMode = None, copyIndex = Some 1\<rparr>" 3]
  by (simp add: entryDivClasses_def upt_rec)

end
